theory Spec2Isabelle
  imports Main "HOL-Library.AList"
begin

section \<open>Text categorisation (src/text_categorizer/categorizer.py)\<close>

text \<open>
  A shallow embedding of the categorisation pipeline: the label extractor
  \<open>extract_categories\<close>, the inference client \<open>get_ollama_response\<close>, the item
  processor \<open>process_item\<close> with its on-disk cache, and the batch scheduler
  \<open>process_batch\<close>.

  Conventions of the model.
  \<^item> A Python \<open>str\<close> is a \<open>string\<close>; a \<open>char\<close> stands for a code point below 256, and
    \<open>isspace\<close> and \<open>lower_char\<close> are Python's \<open>str.isspace\<close> and \<open>str.lower\<close> on that range.
  \<^item> A JSON value, as \<open>json.load\<close> returns it, is a \<open>json\<close>; a \<open>dict\<close> is an association
    list in insertion order. Numbers are integers (fractions are not modelled).
  \<^item> Exceptions are values: a function that can raise returns \<open>py_error + 'a\<close>.
  \<^item> The file system, the directories and the log of effects are a \<open>world\<close> that every
    effectful function takes and returns. File operations themselves succeed; what can
    fail is the parsing of what a file holds. The \<open>print\<close> calls are left out.
  \<^item> What the program does not fix is a field of \<open>env\<close>: the MD5 digest, \<open>str()\<close> of a
    value that is not a string, the order in which a \<open>set\<close> is iterated, and the answers
    of the inference service.
\<close>

subsection \<open>Strings\<close>

definition isspace :: "char \<Rightarrow> bool" where
  "isspace c =
     (let n = (of_char c :: nat)
      in (9 \<le> n \<and> n \<le> 13) \<or> (28 \<le> n \<and> n \<le> 32) \<or> n = 133 \<or> n = 160)"

text \<open>\<open>s.strip()\<close>: leading and trailing white space removed.\<close>

definition strip :: "string \<Rightarrow> string" where
  "strip s = rev (dropWhile isspace (rev (dropWhile isspace s)))"

definition lower_char :: "char \<Rightarrow> char" where
  "lower_char c =
     (let n = (of_char c :: nat)
      in if (65 \<le> n \<and> n \<le> 90) \<or> (192 \<le> n \<and> n \<le> 222 \<and> n \<noteq> 215)
         then char_of (n + 32) else c)"

text \<open>\<open>s.lower()\<close>.\<close>

definition lower :: "string \<Rightarrow> string" where
  "lower s = map lower_char s"

text \<open>
  \<open>s.split(sep)\<close> for a one-character separator: \<open>cur\<close> holds the current segment,
  reversed. The result is never empty: \<open>"".split(",")\<close> is \<open>[""]\<close>.
\<close>

fun split_from :: "char \<Rightarrow> string \<Rightarrow> string \<Rightarrow> string list" where
  "split_from sep cur [] = [rev cur]"
| "split_from sep cur (c # cs) =
     (if c = sep then rev cur # split_from sep [] cs else split_from sep (c # cur) cs)"

definition split :: "string \<Rightarrow> char \<Rightarrow> string list" where
  "split s sep = split_from sep [] s"

text \<open>\<open>sep.join(xs)\<close>.\<close>

fun join :: "string \<Rightarrow> string list \<Rightarrow> string" where
  "join sep [] = []"
| "join sep [x] = x"
| "join sep (x # y # ys) = x @ sep @ join sep (y # ys)"

text \<open>\<open>sub in s\<close> on strings: \<open>sub\<close> occurs in \<open>s\<close> as a contiguous run.\<close>

fun contains :: "string \<Rightarrow> string \<Rightarrow> bool" where
  "contains sub [] = (sub = [])"
| "contains sub (c # cs) = (take (length sub) (c # cs) = sub \<or> contains sub cs)"

subsection \<open>The label extractor\<close>

definition CATEGORIES :: "string list" where
  "CATEGORIES =
     [''Funding'', ''Data'', ''Governance'', ''Workforce'', ''Comms and engagement'', ''Other'']"

text \<open>
  \<open>extract_categories\<close> (lines 73-108). The two \<open>for\<close> loops are folds over the list they
  iterate; \<open>detected\<close> is the set they add to.
\<close>

definition extract_categories :: "string \<Rightarrow> string set" where
  "extract_categories response =
    (let detected = {};
         detected = fold (\<lambda>item detected.
                       let item = strip item
                       in if item \<in> set CATEGORIES then insert item detected else detected)
                     (split response (CHR '','')) detected;
         detected = (if detected = {}
                     then fold (\<lambda>category detected.
                            if contains (lower category) (lower response)
                            then insert category detected else detected)
                          CATEGORIES detected
                     else detected);
         detected = (if detected = {} then insert ''Other'' detected else detected)
     in detected)"

text \<open>
  The reading of "a label's text embedded in prose" that excludes partial words, for
  comparison with the extractor: the label occurs with no letter right before it and no
  letter right after it. \<open>prev\<close> is the character before the current position.
\<close>

definition isalpha :: "char \<Rightarrow> bool" where
  "isalpha c =
     (let n = (of_char c :: nat)
      in (65 \<le> n \<and> n \<le> 90) \<or> (97 \<le> n \<and> n \<le> 122) \<or> n = 170 \<or> n = 181 \<or> n = 186 \<or>
         (192 \<le> n \<and> n \<noteq> 215 \<and> n \<noteq> 247))"

fun contains_word_from :: "char option \<Rightarrow> string \<Rightarrow> string \<Rightarrow> bool" where
  "contains_word_from prev sub [] = (sub = [])"
| "contains_word_from prev sub (c # cs) =
     ((take (length sub) (c # cs) = sub
        \<and> (case prev of None \<Rightarrow> True | Some p \<Rightarrow> \<not> isalpha p)
        \<and> (case drop (length sub) (c # cs) of [] \<Rightarrow> True | n # _ \<Rightarrow> \<not> isalpha n))
      \<or> contains_word_from (Some c) sub cs)"

definition whole_word_labels :: "string \<Rightarrow> string set" where
  "whole_word_labels response =
     set (filter (\<lambda>category. contains_word_from None (lower category) (lower response))
            CATEGORIES)"

subsection \<open>JSON values, errors, the world\<close>

datatype json =
    JNull
  | JBool bool
  | JNum int
  | JStr string
  | JArr "json list"
  | JObj "(string \<times> json) list"

type_synonym pydict = "(string \<times> json) list"

datatype py_error = TypeError | KeyError | JSONDecodeError | UnicodeDecodeError
  | AttributeError | ValueError | InvalidStateError

text \<open>
  What \<open>json.load\<close> makes of a file, or \<open>response.json()\<close> of a body: bytes that are
  not valid text (\<open>UnicodeDecodeError\<close>), text that is not JSON (\<open>JSONDecodeError\<close>), or
  the value. Both errors are a \<open>ValueError\<close>, and neither is the other.
\<close>

datatype document = Undecodable | Unparsable | Parsed json

text \<open>A file of a cache directory: the directory and the file's name in it.\<close>

type_synonym path = "string \<times> string"

text \<open>
  The request sent to the service (\<open>stream\<close> and \<open>options\<close> are constants), and what comes
  back: a transport failure (\<open>httpx.TransportError\<close>, of which a timeout is one), or a
  response with its status code and body.
\<close>

record request =
  url :: string
  model_name :: string
  prompt :: string

datatype http_outcome = ConnectError | TimeoutException | Response nat document

datatype event =
    Mkdir string
  | Exists path
  | Read path
  | Write path json
  | Post request

record world =
  files :: "path \<Rightarrow> document option"
  dirs :: "string set"
  trace :: "event list"

record env =
  md5_hexdigest :: "string \<Rightarrow> string"
  str_of :: "json \<Rightarrow> string"
  list_of_set :: "string set \<Rightarrow> string list"
  ollama_service :: "request list \<Rightarrow> request \<Rightarrow> http_outcome"

definition log :: "event \<Rightarrow> world \<Rightarrow> world" where
  "log e w = w\<lparr>trace := trace w @ [e]\<rparr>"

text \<open>The inference requests made so far, oldest first.\<close>

fun posts :: "event list \<Rightarrow> request list" where
  "posts [] = []"
| "posts (Post r # es) = r # posts es"
| "posts (_ # es) = posts es"

definition requests :: "world \<Rightarrow> request list" where
  "requests w = posts (trace w)"

text \<open>Python's truth value of a JSON value (\<open>not text\<close>).\<close>

fun truthy :: "json \<Rightarrow> bool" where
  "truthy JNull = False"
| "truthy (JBool b) = b"
| "truthy (JNum n) = (n \<noteq> 0)"
| "truthy (JStr s) = (s \<noteq> [])"
| "truthy (JArr xs) = (xs \<noteq> [])"
| "truthy (JObj kvs) = (kvs \<noteq> [])"

text \<open>\<open>d.get(k, dflt)\<close>, and how an f-string renders a value.\<close>

definition dict_get :: "pydict \<Rightarrow> string \<Rightarrow> json \<Rightarrow> json" where
  "dict_get d k dflt = (case map_of d k of None \<Rightarrow> dflt | Some v \<Rightarrow> v)"

definition format_value :: "env \<Rightarrow> json \<Rightarrow> string" where
  "format_value env v = (case v of JStr s \<Rightarrow> s | _ \<Rightarrow> str_of env v)"

subsection \<open>The inference client\<close>

text \<open>
  \<open>get_ollama_response\<close> (lines 23-70) in two halves, split where the coroutine waits for
  the network: \<open>ollama_post\<close> builds the prompt and sends the request (lines 39-64), the
  service answering from the requests it has seen; \<open>ollama_result\<close> is what the
  \<open>try\<close> block makes of the outcome (lines 62-70). \<open>raise_for_status\<close> raises
  \<open>httpx.HTTPStatusError\<close> on a status outside 200-299; both it and a transport
  failure are an \<open>httpx.HTTPError\<close>, which the handler turns into the empty string.
  A body that is not valid text, not JSON, or not an object with a string under
  \<open>response\<close>, raises an error that is no \<open>httpx.HTTPError\<close> and so leaves the function.
\<close>

definition build_prompt :: "env \<Rightarrow> json \<Rightarrow> string" where
  "build_prompt env text =
     (let categories_str = join '', '' CATEGORIES;
          nl = [CHR 0x0A]
      in ''You have a list of categories that you want to assign to some text. '' @ nl
         @ ''    Here is the list: '' @ categories_str
         @ ''. You must assign one or more of those categories in the list, to the following text. Each text can be labelled with more than one category, as long as it is considered relevant. ''
         @ nl @ nl
         @ ''Text to categorize: '' @ format_value env text @ nl @ nl
         @ ''First, think about which categories apply. Then, provide your answer as a comma-separated list ''
         @ nl
         @ ''of categories that apply to this text. Only include categories from the provided list.''
         @ nl @ nl
         @ ''Categories:'')"

definition build_payload :: "env \<Rightarrow> json \<Rightarrow> string \<Rightarrow> request" where
  "build_payload env text model =
     \<lparr>url = ''http://localhost:11434/api/generate'',
      model_name = model,
      prompt = build_prompt env text\<rparr>"

definition ollama_post :: "env \<Rightarrow> json \<Rightarrow> string \<Rightarrow> world \<Rightarrow> http_outcome \<times> world" where
  "ollama_post env text model w =
     (let payload = build_payload env text model
      in (ollama_service env (requests w) payload, log (Post payload) w))"

definition is_success :: "nat \<Rightarrow> bool" where
  "is_success status = (200 \<le> status \<and> status \<le> 299)"

definition ollama_result :: "http_outcome \<Rightarrow> py_error + string" where
  "ollama_result outcome =
     (case outcome of
        ConnectError \<Rightarrow> Inr ''''
      | TimeoutException \<Rightarrow> Inr ''''
      | Response status body \<Rightarrow>
          if \<not> is_success status then Inr ''''
          else (case body of
                  Undecodable \<Rightarrow> Inl UnicodeDecodeError
                | Unparsable \<Rightarrow> Inl JSONDecodeError
                | Parsed (JObj result) \<Rightarrow>
                    (case dict_get result ''response'' (JStr '''') of
                       JStr s \<Rightarrow> Inr (strip s)
                     | _ \<Rightarrow> Inl AttributeError)
                | Parsed _ \<Rightarrow> Inl AttributeError))"

definition get_ollama_response ::
  "env \<Rightarrow> json \<Rightarrow> string \<Rightarrow> world \<Rightarrow> (py_error + string) \<times> world" where
  "get_ollama_response env text model w =
     (case ollama_post env text model w of (outcome, w') \<Rightarrow> (ollama_result outcome, w'))"

subsection \<open>The item processor and its cache\<close>

text \<open>
  The cache of \<open>process_item\<close>, by the lines that make it up. \<open>cache_path\<close> is the key
  derivation (lines 140-141): the MD5 digest of \<open>f"{text}:{model}"\<close>, with the suffix
  \<open>.json\<close>, in the cache directory. \<open>cache_read\<close> is the lookup (lines 143-149): the handler
  catches \<open>json.JSONDecodeError\<close> and \<open>KeyError\<close>, and nothing else, so a file that is
  not valid text, or that is JSON and no object, makes the lookup raise. \<open>cache_write\<close>
  is the store (lines 159-161); the file then holds what \<open>json.load\<close> reads back as
  the document written.
\<close>

definition cache_path :: "env \<Rightarrow> string \<Rightarrow> json \<Rightarrow> string \<Rightarrow> path" where
  "cache_path env cache_dir text model =
     (let text_hash = md5_hexdigest env (format_value env text @ '':'' @ model)
      in (cache_dir, text_hash @ ''.json''))"

definition mkdir :: "string \<Rightarrow> world \<Rightarrow> world" where
  "mkdir d w = log (Mkdir d) (w\<lparr>dirs := insert d (dirs w)\<rparr>)"

text \<open>\<open>cached["categories"]\<close>: only a \<open>dict\<close> can be subscripted with a string.\<close>

definition subscript_categories :: "json \<Rightarrow> py_error + json" where
  "subscript_categories cached =
     (case cached of
        JObj kvs \<Rightarrow> (case map_of kvs ''categories'' of None \<Rightarrow> Inl KeyError | Some v \<Rightarrow> Inr v)
      | _ \<Rightarrow> Inl TypeError)"

datatype lookup = Hit json | Miss | Crash py_error

definition cache_read :: "path \<Rightarrow> world \<Rightarrow> lookup \<times> world" where
  "cache_read cache_file w =
     (let w = log (Exists cache_file) w
      in case files w cache_file of
           None \<Rightarrow> (Miss, w)
         | Some content \<Rightarrow>
             (let w = log (Read cache_file) w
              in case content of
                   Undecodable \<Rightarrow> (Crash UnicodeDecodeError, w)
                 | Unparsable \<Rightarrow> (Miss, w)
                 | Parsed cached \<Rightarrow>
                     (case subscript_categories cached of
                        Inr v \<Rightarrow> (Hit v, w)
                      | Inl KeyError \<Rightarrow> (Miss, w)
                      | Inl e \<Rightarrow> (Crash e, w))))"

definition cache_write :: "path \<Rightarrow> json \<Rightarrow> json \<Rightarrow> world \<Rightarrow> world" where
  "cache_write cache_file text categories w =
     (let doc = JObj [(''text'', text), (''categories'', categories)]
      in log (Write cache_file doc) (w\<lparr>files := (files w)(cache_file \<mapsto> Parsed doc)\<rparr>))"

text \<open>\<open>{**item, "categories": v}\<close>.\<close>

definition with_categories :: "pydict \<Rightarrow> json \<Rightarrow> pydict" where
  "with_categories item v = AList.update ''categories'' v item"

text \<open>
  A call of \<open>process_item\<close> either ends before it waits for the network (it returned or
  raised), or is suspended on its request, holding its item, its text, its cache file
  and the outcome the service has fixed for it.
\<close>

datatype task =
    Returned pydict
  | Raised py_error
  | Suspended pydict json "path option" http_outcome

text \<open>
  \<open>process_item\<close> (lines 111-163), split at \<open>await get_ollama_response\<close>:
  \<open>process_item_begin\<close> runs up to the request (lines 130-152), \<open>process_item_finish\<close>
  from the answer on (lines 152-163). A \<open>Path\<close> is always true, so \<open>if cache_dir\<close> asks
  whether a directory was given. \<open>list(categories)\<close> is evaluated twice on the same set
  and gives the same list both times.
\<close>

definition process_item_begin ::
  "env \<Rightarrow> string \<Rightarrow> string option \<Rightarrow> pydict \<Rightarrow> world \<Rightarrow> task \<times> world" where
  "process_item_begin env model cache_dir item w =
     (let text = dict_get item ''description'' (JStr '''')
      in if \<not> truthy text then (Returned (with_categories item (JArr [JStr ''Other''])), w)
         else (case cache_dir of
                 None \<Rightarrow>
                   (case ollama_post env text model w of
                      (outcome, w) \<Rightarrow> (Suspended item text None outcome, w))
               | Some d \<Rightarrow>
                   (let w = mkdir d w;
                        cache_file = cache_path env d text model
                    in case cache_read cache_file w of
                         (Hit v, w) \<Rightarrow> (Returned (with_categories item v), w)
                       | (Crash e, w) \<Rightarrow> (Raised e, w)
                       | (Miss, w) \<Rightarrow>
                           (case ollama_post env text model w of
                              (outcome, w) \<Rightarrow>
                                (Suspended item text (Some cache_file) outcome, w)))))"

definition process_item_finish ::
  "env \<Rightarrow> pydict \<Rightarrow> json \<Rightarrow> path option \<Rightarrow> http_outcome \<Rightarrow> world
     \<Rightarrow> (py_error + pydict) \<times> world" where
  "process_item_finish env item text cache_file outcome w =
     (case ollama_result outcome of
        Inl e \<Rightarrow> (Inl e, w)
      | Inr response \<Rightarrow>
          (let categories = extract_categories response;
               listed = JArr (map JStr (list_of_set env categories));
               result = with_categories item listed;
               w = (case cache_file of
                      None \<Rightarrow> w
                    | Some f \<Rightarrow> cache_write f text listed w)
           in (Inr result, w)))"

definition process_item ::
  "env \<Rightarrow> pydict \<Rightarrow> string \<Rightarrow> string option \<Rightarrow> world \<Rightarrow> (py_error + pydict) \<times> world" where
  "process_item env item model cache_dir w =
     (case process_item_begin env model cache_dir item w of
        (Returned result, w) \<Rightarrow> (Inr result, w)
      | (Raised e, w) \<Rightarrow> (Inl e, w)
      | (Suspended item text cache_file outcome, w) \<Rightarrow>
          process_item_finish env item text cache_file outcome w)"

text \<open>The cache as the specification names it: a lookup and a store for a text and a model.\<close>

definition cache_get :: "env \<Rightarrow> string \<Rightarrow> json \<Rightarrow> string \<Rightarrow> world \<Rightarrow> lookup" where
  "cache_get env cache_dir text model w =
     fst (cache_read (cache_path env cache_dir text model) w)"

definition cache_put :: "env \<Rightarrow> string \<Rightarrow> json \<Rightarrow> string \<Rightarrow> string list \<Rightarrow> world \<Rightarrow> world" where
  "cache_put env cache_dir text model labels w =
     cache_write (cache_path env cache_dir text model) text (JArr (map JStr labels)) w"

subsection \<open>The batch scheduler\<close>

text \<open>
  \<open>process_batch\<close> (lines 166-188). \<open>asyncio.gather\<close> runs the calls of one window as
  tasks of one event loop. Every task first runs, in the order of the window, up to its
  first wait for the network (\<open>begin_all\<close>); a task that raised there ends the gather
  with its error, the first such task in the order of the window. The suspended tasks
  are then resumed one by one in the order their answers arrive, which the program does
  not control: \<open>order k\<close> picks, among the tasks still suspended, the one that completes
  at step \<open>k\<close> (\<open>complete_all\<close>). Each task keeps its result in its own place. When a
  task raises, the gather raises that task's error at once and the tasks still
  suspended are left behind; once all are done and none raised, the results are read
  off in the order of the window (\<open>results_of\<close>).
\<close>

fun begin_all ::
  "env \<Rightarrow> string \<Rightarrow> string option \<Rightarrow> pydict list \<Rightarrow> world \<Rightarrow> task list \<times> world" where
  "begin_all env model cache_dir [] w = ([], w)"
| "begin_all env model cache_dir (item # batch) w =
     (case process_item_begin env model cache_dir item w of
        (t, w) \<Rightarrow> (case begin_all env model cache_dir batch w of (ts, w) \<Rightarrow> (t # ts, w)))"

fun first_raised :: "task list \<Rightarrow> py_error option" where
  "first_raised [] = None"
| "first_raised (Raised e # ts) = Some e"
| "first_raised (_ # ts) = first_raised ts"

text \<open>The suspended tasks with their places in the window, counted from \<open>i\<close>.\<close>

fun suspended_from ::
  "nat \<Rightarrow> task list \<Rightarrow> (nat \<times> pydict \<times> json \<times> path option \<times> http_outcome) list" where
  "suspended_from i [] = []"
| "suspended_from i (Suspended item text f outcome # ts) =
     (i, item, text, f, outcome) # suspended_from (Suc i) ts"
| "suspended_from i (_ # ts) = suspended_from (Suc i) ts"

lemma suspended_from_iff:
  "(i, item, tx, f, out) \<in> set (suspended_from j ts) \<longleftrightarrow>
     (\<exists>n<length ts. i = j + n \<and> ts ! n = Suspended item tx f out)"
proof (induction ts arbitrary: j)
  case Nil
  then show ?case by simp
next
  case (Cons t ts)
  show ?case
    by (cases t) (auto simp: Cons.IH less_Suc_eq_0_disj)
qed

lemma suspended_from_update:
  "n < length ts \<Longrightarrow> ts ! n = Suspended item tx f out
     \<Longrightarrow> (\<And>a b c d. t' \<noteq> Suspended a b c d)
     \<Longrightarrow> Suc (length (suspended_from j (ts[n := t']))) = length (suspended_from j ts)"
proof (induction ts arbitrary: j n)
  case Nil
  then show ?case by simp
next
  case (Cons t ts)
  show ?case
  proof (cases n)
    case 0
    with Cons.prems show ?thesis by (cases t') auto
  next
    case (Suc m)
    with Cons.prems
    have "Suc (length (suspended_from (Suc j) (ts[m := t']))) =
            length (suspended_from (Suc j) ts)"
      by (intro Cons.IH) auto
    with Suc show ?thesis by (cases t) auto
  qed
qed

function complete_all ::
  "env \<Rightarrow> (nat \<Rightarrow> nat) \<Rightarrow> nat \<Rightarrow> task list \<Rightarrow> world \<Rightarrow> task list \<times> world" where
  "complete_all env order k ts w =
     (case suspended_from 0 ts of
        [] \<Rightarrow> (ts, w)
      | s # ss \<Rightarrow>
          (case (s # ss) ! (order k mod length (s # ss)) of
             (i, item, text, f, outcome) \<Rightarrow>
               (case process_item_finish env item text f outcome w of
                  (Inl e, w) \<Rightarrow> (ts[i := Raised e], w)
                | (Inr result, w) \<Rightarrow>
                    complete_all env order (Suc k) (ts[i := Returned result]) w)))"
  by pat_completeness auto
termination
proof (relation "measure (\<lambda>(env, order, k, ts, w). length (suspended_from 0 ts))", goal_cases)
  case 1
  show ?case by simp
next
  case (2 env order k ts w s ss i y item ya tx yb f outcome xd w' result)
  have "(s # ss) ! (order k mod length (s # ss)) \<in> set (s # ss)"
    by (rule nth_mem) simp
  with 2 have "(i, item, tx, f, outcome) \<in> set (suspended_from 0 ts)"
    by metis
  then have "i < length ts" "ts ! i = Suspended item tx f outcome"
    by (auto simp: suspended_from_iff)
  from suspended_from_update[OF this, of "Returned result" 0]
  show ?case by simp
qed

text \<open>
  \<open>[t.result() for t in tasks]\<close>: the result of a task that raised is its error, and a
  task that is not done has none.
\<close>

fun results_of :: "task list \<Rightarrow> py_error + pydict list" where
  "results_of [] = Inr []"
| "results_of (Returned result # ts) =
     (case results_of ts of Inl e \<Rightarrow> Inl e | Inr results \<Rightarrow> Inr (result # results))"
| "results_of (Raised e # ts) = Inl e"
| "results_of (Suspended item text f outcome # ts) = Inl InvalidStateError"

definition gather ::
  "env \<Rightarrow> (nat \<Rightarrow> nat) \<Rightarrow> string \<Rightarrow> string option \<Rightarrow> pydict list \<Rightarrow> world
     \<Rightarrow> (py_error + pydict list) \<times> world" where
  "gather env order model cache_dir batch w =
     (case begin_all env model cache_dir batch w of
        (ts, w) \<Rightarrow>
          (case first_raised ts of
             Some e \<Rightarrow> (Inl e, w)
           | None \<Rightarrow>
               (case complete_all env order 0 ts w of
                  (ts, w) \<Rightarrow>
                    (case first_raised ts of
                       Some e \<Rightarrow> (Inl e, w)
                     | None \<Rightarrow> (results_of ts, w)))))"

text \<open>
  The loop over the windows, \<open>i\<close> running over \<open>range(0, len(items), batch_size)\<close>. The
  result is what the generator yielded, the error that ended it (if one did), and the
  world it left. \<open>sched i\<close> is the completion order of the window that starts at \<open>i\<close>.
  \<open>range\<close> raises \<open>ValueError\<close> on a step of zero and is empty on a negative one.
\<close>

function windows ::
  "env \<Rightarrow> (nat \<Rightarrow> nat \<Rightarrow> nat) \<Rightarrow> pydict list \<Rightarrow> nat \<Rightarrow> string \<Rightarrow> string option \<Rightarrow> nat
     \<Rightarrow> world \<Rightarrow> pydict list \<times> py_error option \<times> world" where
  "windows env sched items batch_size model cache_dir i w =
     (if batch_size = 0 \<or> length items \<le> i then ([], None, w)
      else (let batch = take batch_size (drop i items)
            in case gather env (sched i) model cache_dir batch w of
                 (Inl e, w) \<Rightarrow> ([], Some e, w)
               | (Inr results, w) \<Rightarrow>
                   (case windows env sched items batch_size model cache_dir (i + batch_size) w of
                      (out, err, w) \<Rightarrow> (results @ out, err, w))))"
  by pat_completeness auto
termination
  by (relation "measure (\<lambda>(env, sched, items, batch_size, model, cache_dir, i, w).
        length items - i)") auto

definition process_batch ::
  "env \<Rightarrow> (nat \<Rightarrow> nat \<Rightarrow> nat) \<Rightarrow> pydict list \<Rightarrow> int \<Rightarrow> string \<Rightarrow> string option \<Rightarrow> world
     \<Rightarrow> pydict list \<times> py_error option \<times> world" where
  "process_batch env sched items batch_size model cache_dir w =
     (if batch_size = 0 then ([], Some ValueError, w)
      else if batch_size < 0 then ([], None, w)
      else windows env sched items (nat batch_size) model cache_dir 0 w)"

subsection \<open>Notions of the specification\<close>

text \<open>
  A transport or HTTP-status failure of a request: no connection, a timeout, or a
  response whose status is outside 200-299.
\<close>

fun failed :: "http_outcome \<Rightarrow> bool" where
  "failed ConnectError = True"
| "failed TimeoutException = True"
| "failed (Response status body) = (\<not> is_success status)"





text \<open>
  An annotated record of an item: the item with a \<open>categories\<close> field set. A task
  stands for an item when it is the call of \<open>process_item\<close> on it: what it holds while
  suspended is that item, and what it returned is an annotated record of it.
\<close>

definition annotates :: "pydict \<Rightarrow> pydict \<Rightarrow> bool" where
  "annotates item result =
     (case map_of result ''categories'' of
        None \<Rightarrow> False
      | Some c \<Rightarrow> result = with_categories item c)"

fun task_of :: "pydict \<Rightarrow> task \<Rightarrow> bool" where
  "task_of item (Returned result) = annotates item result"
| "task_of item (Raised e) = True"
| "task_of item (Suspended item' text f outcome) = (item' = item)"

subsection \<open>Concrete environments\<close>

text \<open>
  Instances for running the model: a digest without collisions (the identity), a
  rendering of values that are not strings, the iteration of a set in the order of the
  taxonomy, a service that is down, one that answers every request with the same text,
  one that answers with a page that is not JSON, and a completion order in which the
  task started last among two answers first.
\<close>

definition plain_digest :: "string \<Rightarrow> string" where
  "plain_digest s = s"

definition plain_str :: "json \<Rightarrow> string" where
  "plain_str v = ''<value>''"

definition taxonomy_order :: "string set \<Rightarrow> string list" where
  "taxonomy_order S = filter (\<lambda>c. c \<in> S) CATEGORIES"

definition service_down :: "request list \<Rightarrow> request \<Rightarrow> http_outcome" where
  "service_down history r = ConnectError"

definition service_saying :: "string \<Rightarrow> request list \<Rightarrow> request \<Rightarrow> http_outcome" where
  "service_saying s history r = Response 200 (Parsed (JObj [(''response'', JStr s)]))"

definition service_garbled :: "request list \<Rightarrow> request \<Rightarrow> http_outcome" where
  "service_garbled history r = Response 200 Unparsable"

definition demo_env :: "(request list \<Rightarrow> request \<Rightarrow> http_outcome) \<Rightarrow> env" where
  "demo_env service =
     \<lparr>md5_hexdigest = plain_digest, str_of = plain_str, list_of_set = taxonomy_order,
      ollama_service = service\<rparr>"

definition empty_world :: world where
  "empty_world = \<lparr>files = Map.empty, dirs = {}, trace = []\<rparr>"

definition last_first :: "nat \<Rightarrow> nat \<Rightarrow> nat" where
  "last_first i k = 1"

text \<open>The completion order in which the tasks answer in the order they started.\<close>

definition in_order :: "nat \<Rightarrow> nat \<Rightarrow> nat" where
  "in_order i k = 0"

text \<open>The cache files written, in the order of the writes.\<close>

fun writes :: "event list \<Rightarrow> path list" where
  "writes [] = []"
| "writes (Write f doc # es) = f # writes es"
| "writes (_ # es) = writes es"

definition demo_items :: "pydict list" where
  "demo_items =
     [[(''id'', JStr ''1''), (''description'', JStr ''We need more funding'')],
      [(''id'', JStr ''2''), (''description'', JStr ''Share the data'')],
      [(''id'', JStr ''3''), (''description'', JStr '''')]]"

text \<open>A service that answers its first request with \<open>Funding\<close> and the later ones with \<open>Data\<close>.\<close>

definition service_by_turn :: "request list \<Rightarrow> request \<Rightarrow> http_outcome" where
  "service_by_turn history r =
     Response 200 (Parsed (JObj [(''response'',
       JStr (case history of [] \<Rightarrow> ''Funding'' | _ \<Rightarrow> ''Data''))]))"



section \<open>Properties\<close>

subsection \<open>Strings\<close>

lemma fold_insert_if:
  "fold (\<lambda>x D. if P x then insert (f x) D else D) xs D0 = D0 \<union> f ` {x \<in> set xs. P x}"
  by (induction xs arbitrary: D0) auto

lemma contains_iff: "contains sub s \<longleftrightarrow> (\<exists>pre post. s = pre @ sub @ post)"
proof (induction s)
  case Nil
  then show ?case by auto
next
  case (Cons c cs)
  have "take (length sub) (c # cs) = sub \<longleftrightarrow> (\<exists>post. c # cs = sub @ post)"
    by (metis append_eq_conv_conj append_take_drop_id)
  moreover have "(\<exists>pre post. c # cs = pre @ sub @ post) \<longleftrightarrow>
      (\<exists>post. c # cs = sub @ post) \<or> (\<exists>pre post. cs = pre @ sub @ post)"
  proof
    assume "\<exists>pre post. c # cs = pre @ sub @ post"
    then obtain pre post where p: "c # cs = pre @ sub @ post" by blast
    show "(\<exists>post. c # cs = sub @ post) \<or> (\<exists>pre post. cs = pre @ sub @ post)"
    proof (cases pre)
      case Nil
      with p show ?thesis by auto
    next
      case (Cons a pre')
      with p show ?thesis by auto
    qed
  next
    assume "(\<exists>post. c # cs = sub @ post) \<or> (\<exists>pre post. cs = pre @ sub @ post)"
    then show "\<exists>pre post. c # cs = pre @ sub @ post"
    proof
      assume "\<exists>post. c # cs = sub @ post"
      then show ?thesis by (metis append_Nil)
    next
      assume "\<exists>pre post. cs = pre @ sub @ post"
      then show ?thesis by (metis append_Cons)
    qed
  qed
  ultimately show ?case using Cons.IH by simp
qed

lemma split_from_no_sep:
  "sep \<notin> set s \<Longrightarrow> split_from sep cur s = [rev cur @ s]"
  by (induction s arbitrary: cur) auto

lemma split_from_append:
  "sep \<notin> set s \<Longrightarrow> split_from sep cur (s @ sep # rest) = (rev cur @ s) # split_from sep [] rest"
  by (induction s arbitrary: cur) auto

lemma split_join:
  "segs \<noteq> [] \<Longrightarrow> \<forall>s \<in> set segs. sep \<notin> set s \<Longrightarrow> split (join [sep] segs) sep = segs"
proof (induction segs)
  case Nil
  then show ?case by simp
next
  case (Cons x xs)
  show ?case
  proof (cases xs)
    case Nil
    with Cons.prems show ?thesis by (simp add: split_def split_from_no_sep)
  next
    case (Cons y ys)
    with Cons.IH Cons.prems have "split_from sep [] (join [sep] (y # ys)) = y # ys"
      by (simp add: split_def)
    with Cons Cons.prems show ?thesis
      by (simp add: split_def split_from_append)
  qed
qed

lemma split_from_not_Nil: "split_from sep cur s \<noteq> []"
  by (induction s arbitrary: cur) auto

lemma join_split_from: "join [sep] (split_from sep cur s) = rev cur @ s"
proof (induction s arbitrary: cur)
  case Nil
  then show ?case by simp
next
  case (Cons c cs)
  show ?case
  proof (cases "c = sep")
    case True
    obtain y ys where "split_from sep [] cs = y # ys"
      using split_from_not_Nil[of sep "[]" cs] by (cases "split_from sep [] cs") auto
    with Cons.IH[of "[]"] True show ?thesis by simp
  next
    case False
    with Cons.IH[of "c # cur"] show ?thesis by simp
  qed
qed

lemma join_split: "join [sep] (split s sep) = s"
  by (simp add: split_def join_split_from)

lemma split_from_sep_free:
  "seg \<in> set (split_from sep cur s) \<Longrightarrow> sep \<notin> set cur \<Longrightarrow> sep \<notin> set seg"
proof (induction s arbitrary: cur)
  case Nil
  then show ?case by simp
next
  case (Cons c cs)
  show ?case
  proof (cases "c = sep")
    case True
    with Cons.prems have "seg = rev cur \<or> seg \<in> set (split_from sep [] cs)" by simp
    then show ?thesis
    proof
      assume "seg = rev cur"
      with Cons.prems show ?thesis by simp
    next
      assume "seg \<in> set (split_from sep [] cs)"
      from Cons.IH[OF this] show ?thesis by simp
    qed
  next
    case False
    with Cons.prems have "seg \<in> set (split_from sep (c # cur) cs)" by simp
    from Cons.IH[OF this] False Cons.prems show ?thesis by simp
  qed
qed

lemma split_sep_free: "seg \<in> set (split s sep) \<Longrightarrow> sep \<notin> set seg"
  using split_from_sep_free[of seg sep "[]" s] by (simp add: split_def)

lemma dropWhile_padded:
  "\<forall>c \<in> set pre. P c \<Longrightarrow> xs \<noteq> [] \<Longrightarrow> \<not> P (hd xs) \<Longrightarrow> dropWhile P (pre @ xs) = xs"
  by (induction pre) (auto simp: neq_Nil_conv)

lemma strip_padded:
  assumes "\<forall>c \<in> set pre. isspace c" "\<forall>c \<in> set post. isspace c"
    and "l \<noteq> []" "\<not> isspace (hd l)" "\<not> isspace (last l)"
  shows "strip (pre @ l @ post) = l"
proof -
  have a: "dropWhile isspace (pre @ l @ post) = l @ post"
    using assms dropWhile_padded[of pre isspace "l @ post"] by simp
  have "dropWhile isspace (rev post @ rev l) = rev l"
    using assms by (intro dropWhile_padded) (auto simp: hd_rev)
  then show ?thesis by (simp add: strip_def a)
qed

lemma isspace_not_comma: "isspace c \<Longrightarrow> c \<noteq> CHR '',''"
  by (auto simp: isspace_def)

lemma categories_shape:
  "\<forall>l \<in> set CATEGORIES. l \<noteq> [] \<and> \<not> isspace (hd l) \<and> \<not> isspace (last l) \<and> CHR '','' \<notin> set l"
  by code_simp

subsection \<open>The label extractor\<close>

text \<open>
  The extractor by cases: the labels among the stripped segments if there are any,
  else the labels found as substrings if there are any, else \<open>Other\<close>.
\<close>

lemma extract_categories_unfold:
  "extract_categories r =
     (let A = strip ` {seg \<in> set (split r (CHR '','')). strip seg \<in> set CATEGORIES};
          B = {c \<in> set CATEGORIES. contains (lower c) (lower r)}
      in if A \<noteq> {} then A else if B \<noteq> {} then B else {''Other''})"
  unfolding extract_categories_def Let_def fold_insert_if by auto


text \<open>
  Claim C3. A response that is a comma-separated list of labels of the taxonomy, each
  segment with any white space around its label, is extracted to exactly the set of
  those labels. The response is given by its segments \<open>(pre, l, post)\<close>: white space,
  a label, white space. The result is a set, so the order of the segments does not
  matter. (A response always has at least one segment: the empty response is the one
  segment \<open>""\<close>, which is no label.)
\<close>

theorem extract_comma_separated_labels:
  assumes "segs \<noteq> []"
    and "\<forall>(pre, l, post) \<in> set segs.
           l \<in> set CATEGORIES \<and> (\<forall>c \<in> set pre. isspace c) \<and> (\<forall>c \<in> set post. isspace c)"
  shows "extract_categories (join '','' (map (\<lambda>(pre, l, post). pre @ l @ post) segs))
           = set (map (\<lambda>(pre, l, post). l) segs)"
proof -
  let ?texts = "map (\<lambda>(pre, l, post). pre @ l @ post) segs"
  have shape: "l \<noteq> [] \<and> \<not> isspace (hd l) \<and> \<not> isspace (last l) \<and> CHR '','' \<notin> set l"
    if "l \<in> set CATEGORIES" for l
    using categories_shape that by blast
  have no_comma: "\<forall>s \<in> set ?texts. CHR '','' \<notin> set s"
    using assms(2) shape isspace_not_comma by fastforce
  have "?texts \<noteq> []" using assms(1) by simp
  then have sp: "split (join '','' ?texts) (CHR '','') = ?texts"
    using split_join[of ?texts "CHR '',''"] no_comma by simp
  have st: "strip (pre @ l @ post) = l" if "(pre, l, post) \<in> set segs" for pre l post
  proof -
    from assms(2) that
    have m: "l \<in> set CATEGORIES" "\<forall>c \<in> set pre. isspace c" "\<forall>c \<in> set post. isspace c"
      by auto
    from shape[OF m(1)] m(2,3) show ?thesis by (intro strip_padded) simp_all
  qed
  have "strip ` {seg \<in> set ?texts. strip seg \<in> set CATEGORIES}
          = set (map (\<lambda>(pre, l, post). l) segs)"
  proof (intro set_eqI iffI)
    fix x assume "x \<in> strip ` {seg \<in> set ?texts. strip seg \<in> set CATEGORIES}"
    then obtain pre l post where "(pre, l, post) \<in> set segs" "x = strip (pre @ l @ post)"
      by auto
    then show "x \<in> set (map (\<lambda>(pre, l, post). l) segs)" using st by force
  next
    fix x assume "x \<in> set (map (\<lambda>(pre, l, post). l) segs)"
    then obtain pre post where m: "(pre, x, post) \<in> set segs" by auto
    then have "x \<in> set CATEGORIES" using assms(2) by auto
    moreover have "pre @ x @ post \<in> set ?texts" using m by force
    ultimately show "x \<in> strip ` {seg \<in> set ?texts. strip seg \<in> set CATEGORIES}"
      using st[OF m] by (metis (mono_tags, lifting) image_eqI mem_Collect_eq)
  qed
  moreover have "set (map (\<lambda>(pre, l, post). l) segs) \<noteq> {}" using assms(1) by simp
  ultimately show ?thesis
    unfolding extract_categories_unfold Let_def sp by simp
qed

text \<open>The response \<open>"Funding , Data"\<close>, with white space on both sides of the comma.\<close>

theorem extract_comma_separated_labels_witness:
  "extract_categories ''Funding , Data'' = {''Funding'', ''Data''}"
proof -
  have "extract_categories (join '','' (map (\<lambda>(pre, l, post). pre @ l @ post)
           [([], ''Funding'', '' ''), ('' '', ''Data'', [])]))
         = set (map (\<lambda>(pre, l, post). l) [([], ''Funding'', '' ''), ('' '', ''Data'', [])])"
    by (rule extract_comma_separated_labels) (simp_all add: CATEGORIES_def isspace_def)
  then show ?thesis by simp
qed

text \<open>
  Claim C5. \<open>extract_categories\<close> is total: no operation of lines 90-108 can raise on a
  string, so the embedding has no error to return, and its result is always a set of
  labels (\<open>extract_categories_valid\<close>). On a response with no label text at all, neither
  a comma-separated segment that is a label once stripped, nor a label occurring in it
  as a substring when both are lower-cased, the result is exactly \<open>{"Other"}\<close>.
\<close>

theorem extract_other_when_no_label_text:
  assumes "\<forall>seg \<in> set (split r (CHR '','')). strip seg \<notin> set CATEGORIES"
    and "\<forall>c \<in> set CATEGORIES. \<not> (\<exists>pre post. lower r = pre @ lower c @ post)"
  shows "extract_categories r = {''Other''}"
  using assms unfolding extract_categories_unfold Let_def contains_iff by auto

text \<open>The third example of the docstring.\<close>

theorem extract_other_when_no_label_text_witness:
  "extract_categories ''None of these categories apply'' = {''Other''}"
proof -
  have a: "\<forall>seg \<in> set (split ''None of these categories apply'' (CHR '','')).
             strip seg \<notin> set CATEGORIES"
    by code_simp
  have "\<forall>c \<in> set CATEGORIES. \<not> contains (lower c) (lower ''None of these categories apply'')"
    by code_simp
  then have b: "\<forall>c \<in> set CATEGORIES.
      \<not> (\<exists>pre post. lower ''None of these categories apply'' = pre @ lower c @ post)"
    unfolding contains_iff .
  show ?thesis by (rule extract_other_when_no_label_text[OF a b])
qed

text \<open>
  Claim C4, as amended. When no comma-separated segment is a label and some label's text
  occurs in the response, the result is exactly the set of labels whose lower-cased
  text is a substring of the lower-cased response, wherever it occurs, inside a longer
  word too.
\<close>

theorem extract_substring_labels:
  assumes "\<forall>seg \<in> set (split r (CHR '','')). strip seg \<notin> set CATEGORIES"
    and "\<exists>c \<in> set CATEGORIES. \<exists>pre post. lower r = pre @ lower c @ post"
  shows "extract_categories r
           = {c \<in> set CATEGORIES. \<exists>pre post. lower r = pre @ lower c @ post}"
  using assms unfolding extract_categories_unfold Let_def contains_iff by auto

text \<open>\<open>"data"\<close> occurs in \<open>"Update the database"\<close>.\<close>

theorem extract_substring_labels_witness:
  "extract_categories ''Update the database''
     = {c \<in> set CATEGORIES. \<exists>pre post. lower ''Update the database'' = pre @ lower c @ post}"
proof -
  have a: "\<forall>seg \<in> set (split ''Update the database'' (CHR '','')).
             strip seg \<notin> set CATEGORIES"
    by code_simp
  have "\<exists>c \<in> set CATEGORIES. contains (lower c) (lower ''Update the database'')"
    by code_simp
  then have b: "\<exists>c \<in> set CATEGORIES.
      \<exists>pre post. lower ''Update the database'' = pre @ lower c @ post"
    unfolding contains_iff .
  show ?thesis by (rule extract_substring_labels[OF a b])
qed

text \<open>
  Claim C4 as stated fails. \<open>"Another point about Funding"\<close> has no comma and is no
  label; it embeds \<open>Funding\<close> as a word and no other label as a word, and the extractor
  also returns \<open>Other\<close>, whose text occurs inside \<open>Another\<close>.
\<close>

theorem extract_partial_word_counterexample:
  "split ''Another point about Funding'' (CHR '','') = [''Another point about Funding'']
   \<and> strip ''Another point about Funding'' \<notin> set CATEGORIES
   \<and> whole_word_labels ''Another point about Funding'' = {''Funding''}
   \<and> extract_categories ''Another point about Funding'' = {''Funding'', ''Other''}
   \<and> extract_categories ''Another point about Funding''
       \<noteq> whole_word_labels ''Another point about Funding''"
  by code_simp

subsection \<open>The world\<close>



lemma files_log: "files (log e w) = files w"
  by (simp add: log_def)

lemma dirs_log: "dirs (log e w) = dirs w"
  by (simp add: log_def)


lemma cache_read_result:
  "fst (cache_read f w) =
     (case files w f of
        None \<Rightarrow> Miss
      | Some Undecodable \<Rightarrow> Crash UnicodeDecodeError
      | Some Unparsable \<Rightarrow> Miss
      | Some (Parsed c) \<Rightarrow>
          (case subscript_categories c of
             Inr v \<Rightarrow> Hit v
           | Inl e \<Rightarrow> if e = KeyError then Miss else Crash e))"
  by (auto simp: cache_read_def Let_def files_log
           split: option.splits document.splits sum.splits py_error.splits)




lemma subscript_categories_TypeError:
  "subscript_categories c = Inl e \<Longrightarrow> e = KeyError \<or> e = TypeError"
  by (auto simp: subscript_categories_def split: json.splits option.splits)

subsection \<open>The item processor\<close>

text \<open>
  Claim C7. For a record whose \<open>description\<close> is absent or the empty string,
  \<open>process_item\<close> returns the record with \<open>categories\<close> set to \<open>["Other"]\<close> and leaves
  the world as it was: the files, the directories and the log of effects are unchanged,
  so there is no inference request and no cache operation (no \<open>mkdir\<close>, no test for the
  file, no read, no write), with a cache directory or without one.
\<close>
theorem process_item_empty_text:
  assumes "map_of item ''description'' = None \<or> map_of item ''description'' = Some (JStr '''')"
  shows "process_item env item model cache_dir w
           = (Inr (with_categories item (JArr [JStr ''Other''])), w)"
  using assms by (auto simp: process_item_def process_item_begin_def dict_get_def)

text \<open>A record with an empty description, with caching enabled.\<close>
theorem process_item_empty_text_witness:
  "process_item (demo_env (service_saying ''Funding'')) [(''id'', JStr ''7''), (''description'', JStr '''')]
      ''llama3'' (Some ''cache'') empty_world
     = (Inr [(''id'', JStr ''7''), (''description'', JStr ''''), (''categories'', JArr [JStr ''Other''])],
        empty_world)"
  using process_item_empty_text[of "[(''id'', JStr ''7''), (''description'', JStr '''')]"
      "demo_env (service_saying ''Funding'')" "''llama3''" "Some ''cache''" empty_world]
  by (simp add: with_categories_def)

subsection \<open>The inference client\<close>

lemma ollama_result_failed: "failed outcome \<Longrightarrow> ollama_result outcome = Inr ''''"
  by (cases outcome) (auto simp: ollama_result_def)

text \<open>
  Claim C8. When the request fails in transport or by its status (no connection, a
  timeout, a status outside 200-299), \<open>get_ollama_response\<close> returns the empty string
  and raises nothing; the item processor that resumes on such an outcome returns a
  record, so the failure is no error of the batch.
\<close>
theorem get_ollama_response_failure:
  assumes "failed (ollama_service env (requests w) (build_payload env text model))"
  shows "fst (get_ollama_response env text model w) = Inr ''''
         \<and> (\<exists>result. fst (process_item_finish env item text cf
                              (ollama_service env (requests w) (build_payload env text model)) w')
                         = Inr result)"
  using assms
  by (simp add: get_ollama_response_def ollama_post_def Let_def ollama_result_failed
        process_item_finish_def)

text \<open>The service is down.\<close>
theorem get_ollama_response_failure_witness:
  "fst (get_ollama_response (demo_env service_down) (JStr ''We need more funding'') ''llama3''
          empty_world) = Inr ''''"
proof -
  have "failed (ollama_service (demo_env service_down) (requests empty_world)
                  (build_payload (demo_env service_down) (JStr ''We need more funding'')
                     ''llama3''))"
    by (simp add: demo_env_def service_down_def)
  from get_ollama_response_failure[OF this] show ?thesis by simp
qed

subsection \<open>The cache\<close>

lemma cache_get_put_same:
  "cache_get env d text model (cache_put env d text model labels w) = Hit (JArr (map JStr labels))"
  by (simp add: cache_get_def cache_put_def cache_read_result cache_write_def Let_def files_log
        subscript_categories_def)

lemma cache_get_put_other:
  "cache_path env d t m \<noteq> cache_path env d text' model' \<Longrightarrow>
     cache_get env d text' model' (cache_put env d t m ls w) = cache_get env d text' model' w"
  by (simp add: cache_get_def cache_put_def cache_read_result cache_write_def Let_def files_log)

lemma cache_get_absent: "files w (cache_path env d text model) = None \<Longrightarrow> cache_get env d text model w = Miss"
  by (simp add: cache_get_def cache_read_result)

lemma files_cache_put_other:
  "cache_path env d t m \<noteq> f \<Longrightarrow> files (cache_put env d t m ls w) f = files w f"
  by (simp add: cache_put_def cache_write_def Let_def files_log)

lemma files_fold_cache_put:
  "\<forall>(t, m, ls) \<in> set puts. cache_path env d t m \<noteq> f \<Longrightarrow>
     files (fold (\<lambda>(t, m, ls). cache_put env d t m ls) puts w) f = files w f"
proof (induction puts arbitrary: w)
  case Nil
  then show ?case by simp
next
  case (Cons p puts)
  obtain t m ls where p: "p = (t, m, ls)" by (cases p)
  with Cons.prems have "cache_path env d t m \<noteq> f"
    and rest: "\<forall>(t, m, ls) \<in> set puts. cache_path env d t m \<noteq> f" by auto
  with Cons.IH[OF rest] p show ?case by (simp add: files_cache_put_other)
qed

text \<open>
  Claim C1, as amended. A lookup for the text and model just stored returns the stored
  labels. A lookup is a miss when, starting from an empty directory, nothing was stored
  under the same cache file; the cache file is the digest of the text, a colon and the
  model, so this is a condition on that string and not on the pair.
\<close>
theorem cache_round_trip:
  "cache_get env d text model (cache_put env d text model labels w)
     = Hit (JArr (map JStr labels))
   \<and> ((\<forall>(t, m, ls) \<in> set puts. cache_path env d t m \<noteq> cache_path env d text' model')
        \<longrightarrow> cache_get env d text' model'
              (fold (\<lambda>(t, m, ls). cache_put env d t m ls) puts (w\<lparr>files := Map.empty\<rparr>))
            = Miss)"
proof (intro conjI impI)
  show "cache_get env d text model (cache_put env d text model labels w)
          = Hit (JArr (map JStr labels))"
    by (rule cache_get_put_same)
next
  assume "\<forall>(t, m, ls) \<in> set puts. cache_path env d t m \<noteq> cache_path env d text' model'"
  then have "files (fold (\<lambda>(t, m, ls). cache_put env d t m ls) puts (w\<lparr>files := Map.empty\<rparr>))
               (cache_path env d text' model') = None"
    by (simp add: files_fold_cache_put)
  then show "cache_get env d text' model'
              (fold (\<lambda>(t, m, ls). cache_put env d t m ls) puts (w\<lparr>files := Map.empty\<rparr>)) = Miss"
    by (rule cache_get_absent)
qed

text \<open>One entry stored, and a lookup for it and for another text.\<close>
theorem cache_round_trip_witness:
  "cache_get (demo_env service_down) ''cache'' (JStr ''Training budget'') ''llama3:8b''
      (cache_put (demo_env service_down) ''cache'' (JStr ''Training budget'') ''llama3:8b''
         [''Funding'', ''Workforce''] empty_world)
     = Hit (JArr [JStr ''Funding'', JStr ''Workforce''])
   \<and> cache_get (demo_env service_down) ''cache'' (JStr ''Staff rota'') ''llama3:8b''
        (fold (\<lambda>(t, m, ls). cache_put (demo_env service_down) ''cache'' t m ls)
           [(JStr ''Training budget'', ''llama3:8b'', [''Funding'', ''Workforce''])]
           (empty_world\<lparr>files := Map.empty\<rparr>))
     = Miss"
  using cache_round_trip[of "demo_env service_down" "''cache''" "JStr ''Training budget''"
      "''llama3:8b''" "[''Funding'', ''Workforce'']" empty_world
      "[(JStr ''Training budget'', ''llama3:8b'', [''Funding'', ''Workforce''])]"
      "JStr ''Staff rota''" "''llama3:8b''"]
  by (simp add: cache_path_def demo_env_def plain_digest_def format_value_def)

text \<open>
  Two different pairs with the same string \<open>f"{text}:{model}"\<close>, hence the same cache
  file under every digest.
\<close>
lemma cache_key_collision:
  "cache_path env d (JStr ''Training budget:llama3'') ''8b''
     = cache_path env d (JStr ''Training budget'') ''llama3:8b''"
  by (simp add: cache_path_def format_value_def)

text \<open>
  Claim C1 as stated fails in its second half. The pair (\<open>"Training budget:llama3"\<close>,
  \<open>"8b"\<close>) was never stored and is a miss in the empty cache; after the pair
  (\<open>"Training budget"\<close>, \<open>"llama3:8b"\<close>) is stored, the lookup for it is a hit.
\<close>
theorem cache_unseen_pair_counterexample:
  "(JStr ''Training budget:llama3'', ''8b'') \<noteq> (JStr ''Training budget'', ''llama3:8b'')
   \<and> cache_get (demo_env service_down) ''cache'' (JStr ''Training budget:llama3'') ''8b''
        empty_world = Miss
   \<and> cache_get (demo_env service_down) ''cache'' (JStr ''Training budget:llama3'') ''8b''
        (cache_put (demo_env service_down) ''cache'' (JStr ''Training budget'') ''llama3:8b''
           [''Funding''] empty_world)
     = Hit (JArr [JStr ''Funding''])"
  by (simp add: cache_get_def cache_put_def cache_read_result cache_write_def Let_def files_log
        subscript_categories_def cache_path_def format_value_def empty_world_def)

subsection \<open>The categories of an annotated record\<close>

lemma map_of_with_categories: "map_of (with_categories item v) ''categories'' = Some v"
  by (simp add: with_categories_def update_conv')





text \<open>The item processor by cases.\<close>

lemma process_item_finish_result:
  "fst (process_item_finish env item text cf outcome w) =
     (case ollama_result outcome of
        Inl e \<Rightarrow> Inl e
      | Inr response \<Rightarrow>
          Inr (with_categories item
                 (JArr (map JStr (list_of_set env (extract_categories response))))))"
  by (simp add: process_item_finish_def Let_def split: sum.splits)








text \<open>A cache file that is JSON but no object: \<open>TypeError\<close> is not caught.\<close>
lemma process_item_entry_not_object:
  "fst (process_item (demo_env service_down)
          [(''description'', JStr ''We need more funding'')] ''llama3'' (Some ''cache'')
          (empty_world\<lparr>files :=
             [cache_path (demo_env service_down) ''cache'' (JStr ''We need more funding'')
                ''llama3''
              \<mapsto> Parsed (JArr [JStr ''Funding''])]\<rparr>))
     = Inl TypeError"
  by code_simp

text \<open>A cache file that is not valid text: \<open>UnicodeDecodeError\<close> is not caught either.\<close>

lemma process_item_entry_not_text:
  "fst (process_item (demo_env service_down)
          [(''description'', JStr ''We need more funding'')] ''llama3'' (Some ''cache'')
          (empty_world\<lparr>files :=
             [cache_path (demo_env service_down) ''cache'' (JStr ''We need more funding'')
                ''llama3''
              \<mapsto> Undecodable]\<rparr>))
     = Inl UnicodeDecodeError"
  by code_simp

text \<open>
  A successful response whose body is not JSON: the decoding error is no
  \<open>httpx.HTTPError\<close> and leaves \<open>process_item\<close>.
\<close>

lemma process_item_garbled_answer:
  "fst (process_item (demo_env service_garbled)
          [(''description'', JStr ''We need more funding'')] ''llama3'' (Some ''cache'')
          empty_world)
     = Inl JSONDecodeError"
  by code_simp



















subsection \<open>The batch scheduler\<close>

lemma annotates_iff: "annotates item result \<longleftrightarrow> (\<exists>c. result = with_categories item c)"
  by (auto simp: annotates_def map_of_with_categories split: option.splits)

text \<open>
  Every task of a window stands for the item at its place, from the start of the
  window to the end of the gather, in whatever order the tasks complete.
\<close>
lemma process_item_begin_task_of:
  "task_of item (fst (process_item_begin env model cache_dir item w))"
  by (auto simp: process_item_begin_def Let_def annotates_iff
        split: option.splits prod.splits lookup.splits)

lemma process_item_finish_annotates:
  "fst (process_item_finish env item tx f outcome w) = Inr result \<Longrightarrow> annotates item result"
  by (auto simp: process_item_finish_result annotates_iff split: sum.splits)

lemma begin_all_tasks:
  "list_all2 task_of batch (fst (begin_all env model cache_dir batch w))"
proof (induction batch arbitrary: w)
  case Nil
  then show ?case by simp
next
  case (Cons item batch)
  obtain t w1 where b: "process_item_begin env model cache_dir item w = (t, w1)"
    by (cases "process_item_begin env model cache_dir item w")
  obtain ts w2 where r: "begin_all env model cache_dir batch w1 = (ts, w2)"
    by (cases "begin_all env model cache_dir batch w1")
  from process_item_begin_task_of[of item env model cache_dir w] b have "task_of item t" by simp
  moreover from Cons.IH[of w1] r have "list_all2 task_of batch ts" by simp
  ultimately show ?case using b r by simp
qed

lemma complete_all_tasks:
  "list_all2 task_of batch ts \<Longrightarrow> list_all2 task_of batch (fst (complete_all env order k ts w))"
proof (induction env order k ts w rule: complete_all.induct)
  case (1 env order k ts w)
  show ?case
  proof (cases "suspended_from 0 ts")
    case Nil
    with "1.prems" show ?thesis by (subst complete_all.simps) simp
  next
    case (Cons s ss)
    obtain i item tx f outcome
      where pick: "(s # ss) ! (order k mod length (s # ss)) = (i, item, tx, f, outcome)"
      by (cases "(s # ss) ! (order k mod length (s # ss))") auto
    have "(s # ss) ! (order k mod length (s # ss)) \<in> set (s # ss)"
      by (rule nth_mem) simp
    with pick Cons have "(i, item, tx, f, outcome) \<in> set (suspended_from 0 ts)" by simp
    then have i: "i < length ts" and ti: "ts ! i = Suspended item tx f outcome"
      by (auto simp: suspended_from_iff)
    from "1.prems" i ti have item: "item = batch ! i"
      by (auto simp: list_all2_conv_all_nth)
    from "1.prems" i have ib: "i < length batch" by (simp add: list_all2_lengthD)
    obtain r w1 where fin: "process_item_finish env item tx f outcome w = (r, w1)"
      by (cases "process_item_finish env item tx f outcome w")
    show ?thesis
    proof (cases r)
      case (Inl e)
      have "list_all2 task_of batch (ts[i := Raised e])"
        using "1.prems" ib by (simp add: list_all2_conv_all_nth nth_list_update)
      with Cons pick fin Inl show ?thesis by (subst complete_all.simps) simp
    next
      case (Inr result)
      from fin Inr have "annotates item result"
        using process_item_finish_annotates[of env item tx f outcome w result] by simp
      with item have upd: "list_all2 task_of batch (ts[i := Returned result])"
        using "1.prems" ib by (simp add: list_all2_conv_all_nth nth_list_update)
      have "list_all2 task_of batch
              (fst (complete_all env order (Suc k) (ts[i := Returned result]) w1))"
        using "1.IH"[OF Cons pick[symmetric] refl refl refl fin[symmetric] Inr upd] .
      with Cons pick fin Inr show ?thesis by (subst complete_all.simps) simp
    qed
  qed
qed

lemma results_of_annotates:
  "results_of ts = Inr results \<Longrightarrow> list_all2 task_of batch ts
     \<Longrightarrow> list_all2 annotates batch results"
proof (induction ts arbitrary: batch results rule: results_of.induct)
  case 1
  then show ?case by simp
next
  case (2 result ts)
  from "2.prems"(2) obtain item rest where b: "batch = item # rest"
    and h: "annotates item result" and t: "list_all2 task_of rest ts"
    by (auto simp: list_all2_Cons2)
  from "2.prems"(1) obtain rs where rs: "results_of ts = Inr rs" and r: "results = result # rs"
    by (auto split: sum.splits)
  from "2.IH"[OF rs t] b h r show ?case by simp
next
  case (3 e ts)
  then show ?case by simp
next
  case (4 item tx f outcome ts)
  then show ?case by simp
qed

lemma gather_annotates:
  assumes "gather env order model cache_dir batch w = (Inr results, w')"
  shows "list_all2 annotates batch results"
proof -
  obtain ts w1 where b: "begin_all env model cache_dir batch w = (ts, w1)"
    by (cases "begin_all env model cache_dir batch w")
  obtain ts' w2 where c: "complete_all env order 0 ts w1 = (ts', w2)"
    by (cases "complete_all env order 0 ts w1")
  from begin_all_tasks[of batch env model cache_dir w] b have "list_all2 task_of batch ts"
    by simp
  from complete_all_tasks[OF this, of env order 0 w1] c have t: "list_all2 task_of batch ts'"
    by simp
  from assms b c have "results_of ts' = Inr results"
    by (auto simp: gather_def split: option.splits)
  from results_of_annotates[OF this t] show ?thesis .
qed

text \<open>
  The error with which a gather ends is the error of one of its tasks: raised by the
  lookup in the cache or by the inference client. When no task raised, all are done
  and every task has a result.
\<close>

lemma first_raised_Some: "first_raised ts = Some e \<Longrightarrow> Raised e \<in> set ts"
  by (induction ts rule: first_raised.induct) auto

lemma first_raised_None: "first_raised ts = None \<Longrightarrow> Raised e \<notin> set ts"
  by (induction ts rule: first_raised.induct) auto

lemma process_item_begin_raises:
  "fst (process_item_begin env model cache_dir item w) = Raised e \<Longrightarrow>
     e = TypeError \<or> e = UnicodeDecodeError"
proof -
  have crash: "e' = TypeError \<or> e' = UnicodeDecodeError" if "cache_read f w' = (Crash e', w'')"
    for f w' w'' e'
  proof -
    from that have "fst (cache_read f w') = Crash e'" by simp
    then show ?thesis
      by (auto simp: cache_read_result dest: subscript_categories_TypeError
            split: option.splits document.splits sum.splits if_splits)
  qed
  assume "fst (process_item_begin env model cache_dir item w) = Raised e"
  then show ?thesis
    by (auto simp: process_item_begin_def Let_def dest: crash
          split: if_splits option.splits prod.splits lookup.splits)
qed

lemma ollama_result_raises:
  "ollama_result outcome = Inl e \<Longrightarrow>
     e = UnicodeDecodeError \<or> e = JSONDecodeError \<or> e = AttributeError"
  by (auto simp: ollama_result_def
        split: http_outcome.splits document.splits json.splits if_splits)

lemma begin_all_raises:
  "Raised e \<in> set (fst (begin_all env model cache_dir batch w)) \<Longrightarrow>
     e = TypeError \<or> e = UnicodeDecodeError"
proof (induction batch arbitrary: w)
  case Nil
  then show ?case by simp
next
  case (Cons item batch)
  obtain t w1 where b: "process_item_begin env model cache_dir item w = (t, w1)"
    by (cases "process_item_begin env model cache_dir item w")
  obtain ts w2 where r: "begin_all env model cache_dir batch w1 = (ts, w2)"
    by (cases "begin_all env model cache_dir batch w1")
  from Cons.prems b r have "t = Raised e \<or> Raised e \<in> set ts" by auto
  then show ?case
  proof
    assume "t = Raised e"
    with b process_item_begin_raises[of env model cache_dir item w e] show ?thesis by simp
  next
    assume "Raised e \<in> set ts"
    with Cons.IH[of w1] r show ?thesis by simp
  qed
qed

lemma complete_all_raises:
  "Raised e \<in> set (fst (complete_all env order k ts w)) \<Longrightarrow>
     Raised e \<in> set ts
     \<or> e = UnicodeDecodeError \<or> e = JSONDecodeError \<or> e = AttributeError"
proof (induction env order k ts w rule: complete_all.induct)
  case (1 env order k ts w)
  show ?case
  proof (cases "suspended_from 0 ts")
    case Nil
    with "1.prems" show ?thesis by (subst (asm) complete_all.simps) simp
  next
    case (Cons s ss)
    obtain i item tx f outcome
      where pick: "(s # ss) ! (order k mod length (s # ss)) = (i, item, tx, f, outcome)"
      by (cases "(s # ss) ! (order k mod length (s # ss))") auto
    obtain r w1 where fin: "process_item_finish env item tx f outcome w = (r, w1)"
      by (cases "process_item_finish env item tx f outcome w")
    show ?thesis
    proof (cases r)
      case (Inl e')
      with "1.prems" Cons pick fin have "Raised e \<in> set (ts[i := Raised e'])"
        by (subst (asm) complete_all.simps) simp
      then have "Raised e \<in> set ts \<or> e = e'"
        using set_update_subset_insert[of ts i "Raised e'"] by auto
      moreover from fin Inl have "ollama_result outcome = Inl e'"
        by (auto simp: process_item_finish_def Let_def split: sum.splits)
      ultimately show ?thesis using ollama_result_raises by blast
    next
      case (Inr result)
      with "1.prems" Cons pick fin
      have "Raised e \<in> set (fst (complete_all env order (Suc k) (ts[i := Returned result]) w1))"
        by (subst (asm) complete_all.simps) simp
      from "1.IH"[OF Cons pick[symmetric] refl refl refl fin[symmetric] Inr this]
      have "Raised e \<in> set (ts[i := Returned result])
              \<or> e = UnicodeDecodeError \<or> e = JSONDecodeError \<or> e = AttributeError" .
      then show ?thesis
        using set_update_subset_insert[of ts i "Returned result"] by auto
    qed
  qed
qed

lemma complete_all_done:
  "first_raised (fst (complete_all env order k ts w)) = None \<Longrightarrow>
     suspended_from 0 (fst (complete_all env order k ts w)) = []"
proof (induction env order k ts w rule: complete_all.induct)
  case (1 env order k ts w)
  show ?case
  proof (cases "suspended_from 0 ts")
    case Nil
    then show ?thesis by (subst complete_all.simps) simp
  next
    case (Cons s ss)
    obtain i item tx f outcome
      where pick: "(s # ss) ! (order k mod length (s # ss)) = (i, item, tx, f, outcome)"
      by (cases "(s # ss) ! (order k mod length (s # ss))") auto
    have "(s # ss) ! (order k mod length (s # ss)) \<in> set (s # ss)"
      by (rule nth_mem) simp
    with pick Cons have "(i, item, tx, f, outcome) \<in> set (suspended_from 0 ts)" by simp
    then have i: "i < length ts" by (auto simp: suspended_from_iff)
    obtain r w1 where fin: "process_item_finish env item tx f outcome w = (r, w1)"
      by (cases "process_item_finish env item tx f outcome w")
    have step: "complete_all env order k ts w =
                  (case r of
                     Inl e \<Rightarrow> (ts[i := Raised e], w1)
                   | Inr result \<Rightarrow> complete_all env order (Suc k) (ts[i := Returned result]) w1)"
      using Cons pick fin by (subst complete_all.simps) (simp split: sum.splits)
    show ?thesis
    proof (cases r)
      case (Inl e)
      from i have "Raised e \<in> set (ts[i := Raised e])" by (simp add: set_update_memI)
      with first_raised_None[of "ts[i := Raised e]" e] "1.prems" step Inl show ?thesis by auto
    next
      case (Inr result)
      with "1.prems" step
      have "first_raised (fst (complete_all env order (Suc k) (ts[i := Returned result]) w1))
              = None"
        by simp
      from "1.IH"[OF Cons pick[symmetric] refl refl refl fin[symmetric] Inr this] step Inr
      show ?thesis by simp
    qed
  qed
qed

lemma results_of_done:
  "suspended_from j ts = [] \<Longrightarrow> first_raised ts = None \<Longrightarrow> \<exists>results. results_of ts = Inr results"
proof (induction ts arbitrary: j)
  case Nil
  then show ?case by simp
next
  case (Cons t ts)
  then show ?case by (cases t) (auto split: sum.splits)
qed

lemma gather_raises_task_error:
  assumes "fst (gather env order model cache_dir batch w) = Inl e"
  shows "e = TypeError \<or> e = UnicodeDecodeError \<or> e = JSONDecodeError \<or> e = AttributeError"
proof -
  obtain ts w1 where b: "begin_all env model cache_dir batch w = (ts, w1)"
    by (cases "begin_all env model cache_dir batch w")
  show ?thesis
  proof (cases "first_raised ts")
    case (Some e')
    with assms b have "e = e'" by (simp add: gather_def)
    with first_raised_Some[OF Some] begin_all_raises[of e env model cache_dir batch w] b
    show ?thesis by auto
  next
    case None
    obtain ts' w2 where c: "complete_all env order 0 ts w1 = (ts', w2)"
      by (cases "complete_all env order 0 ts w1")
    show ?thesis
    proof (cases "first_raised ts'")
      case (Some e')
      with assms b c None have "e = e'" by (simp add: gather_def)
      with first_raised_Some[OF Some] have "Raised e \<in> set (fst (complete_all env order 0 ts w1))"
        using c by simp
      from complete_all_raises[OF this] first_raised_None[OF None, of e]
      show ?thesis by auto
    next
      case none: None
      with complete_all_done[of env order 0 ts w1] c have "suspended_from 0 ts' = []" by simp
      from results_of_done[OF this none] obtain results where "results_of ts' = Inr results"
        by blast
      with assms b c None none show ?thesis by (simp add: gather_def)
    qed
  qed
qed

lemma take_window:
  "length rs = length (take n xs) \<Longrightarrow>
     take (length rs + m) xs = take n xs @ take m (drop n xs)"
  by (cases "n \<le> length xs") (simp_all add: take_add min_def)

lemma windows_annotates:
  "windows env sched items batch_size model cache_dir i w = (out, err, w') \<Longrightarrow>
     0 < batch_size \<Longrightarrow>
     list_all2 annotates (take (length out) (drop i items)) out
     \<and> (err = None \<longrightarrow> length out = length items - i)"
proof (induction env sched items batch_size model cache_dir i w arbitrary: out err w'
        rule: windows.induct)
  case (1 env sched items batch_size model cache_dir i w)
  show ?case
  proof (cases "batch_size = 0 \<or> length items \<le> i")
    case True
    with "1.prems" have "out = []" "err = None" "length items \<le> i"
      by (subst (asm) windows.simps; simp)+
    then show ?thesis by simp
  next
    case False
    let ?batch = "take batch_size (drop i items)"
    obtain g w1 where g: "gather env (sched i) model cache_dir ?batch w = (g, w1)"
      by (cases "gather env (sched i) model cache_dir ?batch w")
    show ?thesis
    proof (cases g)
      case (Inl e)
      with "1.prems" False g have "out = []" "err = Some e"
        by (subst (asm) windows.simps; simp)+
      then show ?thesis by simp
    next
      case (Inr results)
      obtain out' err' w''
        where rest: "windows env sched items batch_size model cache_dir (i + batch_size) w1
                       = (out', err', w'')"
        by (cases "windows env sched items batch_size model cache_dir (i + batch_size) w1") auto
      from "1.prems" False g Inr rest have out: "out = results @ out'" and err: "err = err'"
        by (subst (asm) windows.simps; simp)+
      from g Inr have a: "list_all2 annotates ?batch results"
        using gather_annotates by simp
      from list_all2_lengthD[OF a] have len: "length results = length ?batch" by simp
      from "1.IH"[OF False refl g[symmetric] Inr rest "1.prems"(2)]
      have ih: "list_all2 annotates (take (length out') (drop (i + batch_size) items)) out'"
        and full: "err' = None \<longrightarrow> length out' = length items - (i + batch_size)"
        by simp_all
      have "take (length results + length out') (drop i items)
              = ?batch @ take (length out') (drop (i + batch_size) items)"
        using take_window[OF len, of "length out'"] by (simp add: add.commute)
      with a ih have "list_all2 annotates (take (length out) (drop i items)) out"
        by (simp add: out list_all2_appendI)
      moreover have "err = None \<longrightarrow> length out = length items - i"
      proof
        assume "err = None"
        with err full have "length out' = length items - (i + batch_size)" by simp
        with len out show "length out = length items - i" by (simp add: min_def)
      qed
      ultimately show ?thesis by simp
    qed
  qed
qed

text \<open>
  Claim C2. For every list of records, every positive window size and every completion
  order \<open>sched\<close> of the concurrent calls, the records that \<open>process_batch\<close> yields are, place
  by place, annotated records of the input records: the \<open>k\<close>-th record yielded is the
  \<open>k\<close>-th input record with its \<open>categories\<close>. When no call raised, every input record
  has been yielded.
\<close>
theorem process_batch_preserves_order:
  assumes "0 < batch_size"
    and "process_batch env sched items batch_size model cache_dir w = (out, err, w')"
  shows "length out \<le> length items
         \<and> (\<forall>k < length out. annotates (items ! k) (out ! k))
         \<and> (err = None \<longrightarrow> length out = length items)"
proof -
  from assms have "windows env sched items (nat batch_size) model cache_dir 0 w = (out, err, w')"
    by (simp add: process_batch_def)
  moreover from assms(1) have "0 < nat batch_size" by simp
  ultimately have a: "list_all2 annotates (take (length out) (drop 0 items)) out"
    and full: "err = None \<longrightarrow> length out = length items - 0"
    using windows_annotates by blast+
  from list_all2_lengthD[OF a] have len: "length out \<le> length items" by simp
  have "annotates (items ! k) (out ! k)" if "k < length out" for k
    using list_all2_nthD2[OF a that] that by simp
  with len full show ?thesis by simp
qed

text \<open>
  Three records in windows of two; in the first window the second record's answer
  arrives first.
\<close>
theorem process_batch_preserves_order_witness:
  "fst (process_batch (demo_env service_by_turn) last_first demo_items 2 ''llama3''
          (Some ''cache'') empty_world)
     = [[(''id'', JStr ''1''), (''description'', JStr ''We need more funding''),
         (''categories'', JArr [JStr ''Funding''])],
        [(''id'', JStr ''2''), (''description'', JStr ''Share the data''),
         (''categories'', JArr [JStr ''Data''])],
        [(''id'', JStr ''3''), (''description'', JStr ''''),
         (''categories'', JArr [JStr ''Other''])]]
   \<and> length (fst (process_batch (demo_env service_by_turn) last_first demo_items 2 ''llama3''
          (Some ''cache'') empty_world)) \<le> length demo_items
   \<and> annotates (demo_items ! 0)
        (fst (process_batch (demo_env service_by_turn) last_first demo_items 2 ''llama3''
                (Some ''cache'') empty_world) ! 0)
   \<and> annotates (demo_items ! 1)
        (fst (process_batch (demo_env service_by_turn) last_first demo_items 2 ''llama3''
                (Some ''cache'') empty_world) ! 1)
   \<and> annotates (demo_items ! 2)
        (fst (process_batch (demo_env service_by_turn) last_first demo_items 2 ''llama3''
                (Some ''cache'') empty_world) ! 2)"
proof -
  let ?run = "process_batch (demo_env service_by_turn) last_first demo_items 2 ''llama3''
                (Some ''cache'') empty_world"
  have ev: "fst ?run
     = [[(''id'', JStr ''1''), (''description'', JStr ''We need more funding''),
         (''categories'', JArr [JStr ''Funding''])],
        [(''id'', JStr ''2''), (''description'', JStr ''Share the data''),
         (''categories'', JArr [JStr ''Data''])],
        [(''id'', JStr ''3''), (''description'', JStr ''''),
         (''categories'', JArr [JStr ''Other''])]]"
    by code_simp
  have pos: "(0::int) < 2" by simp
  have run: "?run = (fst ?run, fst (snd ?run), snd (snd ?run))" by simp
  from process_batch_preserves_order[OF pos run]
  have len: "length (fst ?run) \<le> length demo_items"
    and ann: "\<And>k. k < length (fst ?run) \<Longrightarrow> annotates (demo_items ! k) (fst ?run ! k)"
    by blast+
  have "length (fst ?run) = 3" by (simp add: ev)
  with ann[of 0] ann[of 1] ann[of 2] len ev show ?thesis by simp
qed

text \<open>
  The completion order is visible in the world, in the order of the cache writes: with
  the answers arriving last first, and then in the order the tasks started.
\<close>
lemma completion_order_shows_in_writes:
  "writes (trace (snd (snd (process_batch (demo_env service_by_turn) last_first demo_items 2
                              ''llama3'' (Some ''cache'') empty_world))))
     = [(''cache'', ''Share the data:llama3.json''),
        (''cache'', ''We need more funding:llama3.json'')]"
  by code_simp

lemma start_order_shows_in_writes:
  "writes (trace (snd (snd (process_batch (demo_env service_by_turn) in_order demo_items 2
                              ''llama3'' (Some ''cache'') empty_world))))
     = [(''cache'', ''We need more funding:llama3.json''),
        (''cache'', ''Share the data:llama3.json'')]"
  by code_simp

end
